theory Spec2Isabelle
  imports Main
begin

section \<open>Configuration\<close>

text \<open>
  The return policy is the Go enumeration \<^verbatim>\<open>CacheMethod\<close> (\<^verbatim>\<open>iota\<close> order).  Capacities are
  Go \<^verbatim>\<open>int\<close>, durations are \<^verbatim>\<open>time.Duration\<close> (nanoseconds); both are modelled as \<open>int\<close>:
  the only arithmetic on them in the modelled code is \<^verbatim>\<open>MaxCap - InitCap\<close> after the merge
  (where \<open>InitCap = 0\<close>) and the comparison against the idle time, so no wrap-around is
  involved.
\<close>

datatype CacheMethod = UndefinedCacheMethod | FIFO | FILO

record Config =
  CacheMethod :: CacheMethod
  InitCap :: int
  MaxCap :: int
  IdleTimeout :: int
  WaitTimeout :: int
  IOTimeout :: int
  DialTimeout :: int

definition Second :: int where
  "Second = 1000000000"

definition defaultConfig :: Config where
  "defaultConfig =
     \<lparr>CacheMethod = FIFO, InitCap = 0, MaxCap = 1,
      IdleTimeout = 3 * Second, WaitTimeout = 3 * Second,
      IOTimeout = 30 * Second, DialTimeout = 30 * Second\<rparr>"

text \<open>\<^verbatim>\<open>func (c *Config) Merge(new Config) (Config, bool)\<close>: five guarded assignments.\<close>

definition Merge :: "Config \<Rightarrow> Config \<Rightarrow> Config \<times> bool" where
  "Merge c new =
     (let result = c; changed = False;
          (result, changed) =
            (if MaxCap new > 0 \<and> MaxCap new \<noteq> MaxCap result
             then (result\<lparr>MaxCap := MaxCap new\<rparr>, True) else (result, changed));
          (result, changed) =
            (if DialTimeout new > 0 \<and> DialTimeout new \<noteq> DialTimeout result
             then (result\<lparr>DialTimeout := DialTimeout new\<rparr>, True) else (result, changed));
          (result, changed) =
            (if IOTimeout new > 0 \<and> IOTimeout new \<noteq> IOTimeout result
             then (result\<lparr>IOTimeout := IOTimeout new\<rparr>, True) else (result, changed));
          (result, changed) =
            (if WaitTimeout new > 0 \<and> WaitTimeout new \<noteq> WaitTimeout result
             then (result\<lparr>WaitTimeout := WaitTimeout new\<rparr>, True) else (result, changed));
          (result, changed) =
            (if IdleTimeout new > 0 \<and> IdleTimeout new \<noteq> IdleTimeout result
             then (result\<lparr>IdleTimeout := IdleTimeout new\<rparr>, True) else (result, changed))
      in (result, changed))"

section \<open>Errors and panics\<close>

text \<open>
  \<open>ErrTimeout\<close>, \<open>ErrClosed\<close> and \<open>errDequeFull\<close> are the package's error values;
  \<open>ErrInvalidCap\<close> is \<^verbatim>\<open>errors.New("invalid capacity settings")\<close>, \<open>ErrDial\<close> an error returned
  by the factory, \<open>ErrCreate\<close> the \<^verbatim>\<open>"create connection fail"\<close> wrapper.  The remaining
  constructors are the ways a call does not return normally: a nil-pointer dereference,
  \<^verbatim>\<open>make(chan, n)\<close> with negative \<open>n\<close>, and a send on a full channel that nobody drains.
\<close>

datatype error =
    ErrTimeout | ErrClosed | errDequeFull | ErrInvalidCap | ErrDial | ErrCreate
  | PanicNilDeref | PanicMakeChan | BlockedForever

section \<open>Deque\<close>

text \<open>
  \<^verbatim>\<open>container/list\<close> as a HOL list, front first.  \<open>capacity < 0\<close> means unlimited.
\<close>

record 'a deque =
  container :: "'a list"
  capacity :: int

definition newDeque :: "int \<Rightarrow> 'a deque" where
  "newDeque c = \<lparr>container = [], capacity = c\<rparr>"

definition deque_append :: "'a deque \<Rightarrow> 'a \<Rightarrow> bool \<times> 'a deque" where
  "deque_append s item =
     (if capacity s < 0 \<or> int (length (container s)) < capacity s
      then (True, s\<lparr>container := container s @ [item]\<rparr>)
      else (False, s))"

definition deque_prepend :: "'a deque \<Rightarrow> 'a \<Rightarrow> bool \<times> 'a deque" where
  "deque_prepend s item =
     (if capacity s < 0 \<or> int (length (container s)) < capacity s
      then (True, s\<lparr>container := item # container s\<rparr>)
      else (False, s))"

text \<open>\<open>None\<close> is the nil interface value returned when the list has no back element.\<close>

definition deque_pop :: "'a deque \<Rightarrow> 'a option \<times> 'a deque" where
  "deque_pop s =
     (case container s of
        [] \<Rightarrow> (None, s)
      | _ # _ \<Rightarrow> (Some (last (container s)), s\<lparr>container := butlast (container s)\<rparr>))"

text \<open>
  \<^verbatim>\<open>walk\<close> calls the visitor on each element from the front.  The visitor acts on a state
  \<open>'s\<close>; a panic inside it (\<open>Some e\<close>) unwinds the traversal at that element.
\<close>

fun walk_from :: "('a \<Rightarrow> 's \<Rightarrow> error option \<times> 's) \<Rightarrow> 'a list \<Rightarrow> 's \<Rightarrow> error option \<times> 's" where
  "walk_from walkFn [] st = (None, st)"
| "walk_from walkFn (x # xs) st =
     (case walkFn x st of
        (Some e, st') \<Rightarrow> (Some e, st')
      | (None, st') \<Rightarrow> walk_from walkFn xs st')"

definition deque_walk :: "'a deque \<Rightarrow> ('a \<Rightarrow> 's \<Rightarrow> error option \<times> 's) \<Rightarrow> 's \<Rightarrow> error option \<times> 's" where
  "deque_walk s walkFn st = walk_from walkFn (container s) st"

section \<open>Bounded queue\<close>

text \<open>
  The gate is a buffered channel of empty structs: only its length and capacity matter.
\<close>

record 'a blockingDeque =
  deque :: "'a deque"
  gate_len :: nat
  gate_cap :: nat

text \<open>The preloading loop: each iteration is a blocking send.\<close>

primrec preload :: "nat \<Rightarrow> 'a blockingDeque \<Rightarrow> error + 'a blockingDeque" where
  "preload 0 q = Inr q"
| "preload (Suc n) q =
     (if gate_len q < gate_cap q then preload n (q\<lparr>gate_len := gate_len q + 1\<rparr>)
      else Inl BlockedForever)"

definition newBlockingDeque :: "int \<Rightarrow> int \<Rightarrow> error + 'a blockingDeque" where
  "newBlockingDeque maxCap nilCap =
     (if maxCap < 0 then Inl PanicMakeChan
      else preload (nat nilCap) \<lparr>deque = newDeque maxCap, gate_len = 0, gate_cap = nat maxCap\<rparr>)"

text \<open>
  \<^verbatim>\<open>pop(timeout)\<close> in a sequential run: with a token in the gate the receive is ready at once;
  with none, no other party can add one and the timer fires.  The timeout only decides
  how long the call waits.
\<close>

definition bq_pop :: "'a blockingDeque \<Rightarrow> int \<Rightarrow> (error + 'a option) \<times> 'a blockingDeque" where
  "bq_pop q timeout =
     (if gate_len q > 0
      then (let (elem, d) = deque_pop (deque q)
            in (Inr elem, q\<lparr>deque := d, gate_len := gate_len q - 1\<rparr>))
      else (Inl ErrTimeout, q))"

definition bq_append :: "'a blockingDeque \<Rightarrow> 'a \<Rightarrow> error option \<times> 'a blockingDeque" where
  "bq_append q item =
     (if gate_len q < gate_cap q
      then (None, q\<lparr>deque := snd (deque_append (deque q) item), gate_len := gate_len q + 1\<rparr>)
      else (Some errDequeFull, q))"

definition bq_prepend :: "'a blockingDeque \<Rightarrow> 'a \<Rightarrow> error option \<times> 'a blockingDeque" where
  "bq_prepend q item =
     (if gate_len q < gate_cap q
      then (None, q\<lparr>deque := snd (deque_prepend (deque q) item), gate_len := gate_len q + 1\<rparr>)
      else (Some errDequeFull, q))"

subsection \<open>The statements of the bounded queue, one at a time\<close>

text \<open>
  \<open>pop\<close>, \<open>append\<close> and \<open>prepend\<close> each run two separately synchronised statements: one on
  the gate channel and one on the deque (under the deque's own lock).  Between the two,
  other goroutines may run.  \<open>gate_send\<close> is the send of the \<^verbatim>\<open>select\<close> with its
  \<^verbatim>\<open>default\<close> branch, \<open>gate_recv\<close> the receive when a token is there, \<open>push_tail\<close> and
  \<open>push_head\<close> the calls \<^verbatim>\<open>q.deque.append(item)\<close> and \<^verbatim>\<open>q.deque.prepend(item)\<close> whose
  boolean result is dropped, \<open>pop_tail\<close> the call \<^verbatim>\<open>q.deque.pop()\<close>.
\<close>

definition gate_send :: "'a blockingDeque \<Rightarrow> bool \<times> 'a blockingDeque" where
  "gate_send q =
     (if gate_len q < gate_cap q then (True, q\<lparr>gate_len := gate_len q + 1\<rparr>) else (False, q))"

definition gate_recv :: "'a blockingDeque \<Rightarrow> bool \<times> 'a blockingDeque" where
  "gate_recv q =
     (if gate_len q > 0 then (True, q\<lparr>gate_len := gate_len q - 1\<rparr>) else (False, q))"

definition push_tail :: "'a blockingDeque \<Rightarrow> 'a \<Rightarrow> 'a blockingDeque" where
  "push_tail q item = q\<lparr>deque := snd (deque_append (deque q) item)\<rparr>"

definition push_head :: "'a blockingDeque \<Rightarrow> 'a \<Rightarrow> 'a blockingDeque" where
  "push_head q item = q\<lparr>deque := snd (deque_prepend (deque q) item)\<rparr>"

definition pop_tail :: "'a blockingDeque \<Rightarrow> 'a option \<times> 'a blockingDeque" where
  "pop_tail q = (fst (deque_pop (deque q)), q\<lparr>deque := snd (deque_pop (deque q))\<rparr>)"

section \<open>Connection handles and the pool\<close>

text \<open>
  A value of Go type \<^verbatim>\<open>*WrappedConn\<close> is the nil pointer or the address of a handle.  Every
  element pushed into the pool's deque has this dynamic type, so a popped element is
  \<open>None\<close> (nil interface: the deque was empty), \<open>Some NilPtr\<close> (an interface holding a nil
  \<^verbatim>\<open>*WrappedConn\<close>) or \<open>Some (Ptr a)\<close>.
\<close>

datatype connptr = NilPtr | Ptr nat

text \<open>
  The handle's fields.  \<open>closed\<close> records that \<^verbatim>\<open>Close()\<close> has been called on the embedded
  transport \<^verbatim>\<open>net.Conn\<close>; the back pointer to the pool is implicit (one pool).
\<close>

record WrappedConn =
  unusable :: bool
  lastAccess :: int
  closed :: bool

text \<open>
  The pool with the handles it has created (\<open>heap\<close>, addressed by index) and the log of
  factory invocations (\<open>dialed\<close>: address and dial timeout of each call).  The factory and
  the clock are the environment: an operation that may dial takes the outcome \<open>ok\<close> the
  factory would have, and an operation that reads the clock takes the reading \<open>now\<close>.
\<close>

record blockingPool =
  address :: string
  conns :: "connptr blockingDeque option"
  Config :: Config
  heap :: "WrappedConn list"
  dialed :: "(string \<times> int) list"

definition NewWrapConn :: "blockingPool \<Rightarrow> bool \<Rightarrow> int \<Rightarrow> (error + nat) \<times> blockingPool" where
  "NewWrapConn p ok now =
     (let p1 = p\<lparr>dialed := dialed p @ [(address p, DialTimeout (Config p))]\<rparr>
      in if \<not> ok then (Inl ErrDial, p1)
         else (Inr (length (heap p1)),
               p1\<lparr>heap := heap p1 @ [\<lparr>unusable = False, lastAccess = now, closed = False\<rparr>]\<rparr>))"

text \<open>The eager-creation loop of the constructor, over the indices \<open>0 ..< InitCap\<close>.\<close>

fun eager :: "nat list \<Rightarrow> (nat \<Rightarrow> bool) \<Rightarrow> (nat \<Rightarrow> int) \<Rightarrow> blockingPool \<Rightarrow> error + blockingPool" where
  "eager [] oks nows p = Inr p"
| "eager (i # rest) oks nows p =
     (case NewWrapConn p (oks i) (nows i) of
        (Inl err, p1) \<Rightarrow> Inl ErrCreate
      | (Inr a, p1) \<Rightarrow>
          (case conns p1 of
             None \<Rightarrow> Inl PanicNilDeref
           | Some q \<Rightarrow> eager rest oks nows (p1\<lparr>conns := Some (snd (bq_prepend q (Ptr a)))\<rparr>)))"

definition NewBlockingPool ::
    "string \<Rightarrow> Config \<Rightarrow> (nat \<Rightarrow> bool) \<Rightarrow> (nat \<Rightarrow> int) \<Rightarrow> error + blockingPool" where
  "NewBlockingPool addr c oks nows =
     (if InitCap c > MaxCap c then Inl ErrInvalidCap
      else let c = fst (Merge defaultConfig c)
           in case newBlockingDeque (MaxCap c) (MaxCap c - InitCap c) of
                Inl e \<Rightarrow> Inl e
              | Inr q \<Rightarrow>
                  eager [0 ..< nat (InitCap c)] oks nows
                    \<lparr>address = addr, conns = Some q, Config = c, heap = [], dialed = []\<rparr>)"

definition Get :: "blockingPool \<Rightarrow> bool \<Rightarrow> int \<Rightarrow> (error + nat) \<times> blockingPool" where
  "Get p ok now =
     (case conns p of
        None \<Rightarrow> (Inl ErrClosed, p)
      | Some q \<Rightarrow>
          (case bq_pop q (WaitTimeout (Config p)) of
             (Inl err, q') \<Rightarrow> (Inl err, p\<lparr>conns := Some q'\<rparr>)
           | (Inr item, q') \<Rightarrow>
               (let p' = p\<lparr>conns := Some q'\<rparr>
                in case item of
                     None \<Rightarrow> NewWrapConn p' ok now
                   | Some NilPtr \<Rightarrow> (Inl PanicNilDeref, p')
                   | Some (Ptr a) \<Rightarrow>
                       if unusable (heap p' ! a) then NewWrapConn p' ok now
                       else (Inr a, p'))))"

definition destroy :: "blockingPool \<Rightarrow> nat \<Rightarrow> blockingPool" where
  "destroy p a = p\<lparr>heap := (heap p)[a := (heap p ! a)\<lparr>closed := True\<rparr>]\<rparr>"

definition putTop :: "blockingPool \<Rightarrow> connptr \<Rightarrow> error option \<times> blockingPool" where
  "putTop p conn =
     (case conns p of
        None \<Rightarrow>
          (case conn of
             NilPtr \<Rightarrow> (Some PanicNilDeref, p)
           | Ptr a \<Rightarrow> (Some ErrClosed, destroy p a))
      | Some q \<Rightarrow> (None, p\<lparr>conns := Some (snd (bq_prepend q conn))\<rparr>))"

definition putBottom :: "blockingPool \<Rightarrow> connptr \<Rightarrow> error option \<times> blockingPool" where
  "putBottom p conn =
     (case conns p of
        None \<Rightarrow>
          (case conn of
             NilPtr \<Rightarrow> (Some PanicNilDeref, p)
           | Ptr a \<Rightarrow> (Some ErrClosed, destroy p a))
      | Some q \<Rightarrow> (None, p\<lparr>conns := Some (snd (bq_append q conn))\<rparr>))"

definition put :: "blockingPool \<Rightarrow> connptr \<Rightarrow> error option \<times> blockingPool" where
  "put p conn =
     (if CacheMethod (Config p) = FIFO then putBottom p conn else putTop p conn)"

text \<open>
  \<^verbatim>\<open>WrappedConn.Close\<close> on the handle at address \<open>a\<close>.  It returns nil whatever the pool
  answered; only a panic (\<open>Some PanicNilDeref\<close>) escapes.
\<close>

definition Close :: "blockingPool \<Rightarrow> nat \<Rightarrow> error option \<times> blockingPool" where
  "Close p a =
     (if unusable (heap p ! a)
      then (case putBottom (destroy p a) NilPtr of
              (Some PanicNilDeref, p') \<Rightarrow> (Some PanicNilDeref, p')
            | (_, p') \<Rightarrow> (None, p'))
      else (case put p (Ptr a) of
              (None, p') \<Rightarrow> (None, p')
            | (Some PanicNilDeref, p') \<Rightarrow> (Some PanicNilDeref, p')
            | (Some err, p') \<Rightarrow> (None, destroy p' a)))"

definition checkIdle :: "blockingPool \<Rightarrow> nat \<Rightarrow> int \<Rightarrow> bool \<times> blockingPool" where
  "checkIdle p a now =
     (if now - lastAccess (heap p ! a) > IdleTimeout (Config p)
      then (False, destroy (p\<lparr>heap := (heap p)[a := (heap p ! a)\<lparr>unusable := True\<rparr>]\<rparr>) a)
      else (True, p))"

text \<open>
  The visitor of the idle sweep: the type assertion succeeds on every stored element, and
  \<^verbatim>\<open>checkIdle\<close> on a nil pointer dereferences it.  The state carries the number of elements
  visited so far; the visit of element \<open>i\<close> reads the clock as \<open>clock i\<close>.
\<close>

definition sweepFn :: "(nat \<Rightarrow> int) \<Rightarrow> connptr \<Rightarrow> nat \<times> blockingPool \<Rightarrow> error option \<times> nat \<times> blockingPool" where
  "sweepFn clock item st =
     (case item of
        NilPtr \<Rightarrow> (Some PanicNilDeref, st)
      | Ptr a \<Rightarrow> (None, Suc (fst st), snd (checkIdle (snd st) a (clock (fst st)))))"

text \<open>One round of \<^verbatim>\<open>checkIdleConn\<close> (the body of its endless loop, after the sleep).\<close>

definition checkIdleConn :: "blockingPool \<Rightarrow> (nat \<Rightarrow> int) \<Rightarrow> error option \<times> blockingPool" where
  "checkIdleConn p clock =
     (case conns p of
        None \<Rightarrow> (Some PanicNilDeref, p)
      | Some q \<Rightarrow>
          (case deque_walk (deque q) (sweepFn clock) (0, p) of
             (r, n, p') \<Rightarrow> (r, p')))"

definition MarkUnusable :: "blockingPool \<Rightarrow> nat \<Rightarrow> blockingPool" where
  "MarkUnusable p a = p\<lparr>heap := (heap p)[a := (heap p ! a)\<lparr>unusable := True\<rparr>]\<rparr>"

text \<open>
  \<^verbatim>\<open>Write\<close> and \<^verbatim>\<open>Read\<close> act on the handle alike: \<open>ok\<close> tells whether the transport call
  returned without error.
\<close>

definition Write :: "blockingPool \<Rightarrow> nat \<Rightarrow> bool \<Rightarrow> int \<Rightarrow> blockingPool" where
  "Write p a ok now =
     (if \<not> ok then p\<lparr>heap := (heap p)[a := (heap p ! a)\<lparr>unusable := True\<rparr>]\<rparr>
      else p\<lparr>heap := (heap p)[a := (heap p ! a)\<lparr>lastAccess := now\<rparr>]\<rparr>)"

definition Read :: "blockingPool \<Rightarrow> nat \<Rightarrow> bool \<Rightarrow> int \<Rightarrow> blockingPool" where
  "Read p a ok now =
     (if \<not> ok then p\<lparr>heap := (heap p)[a := (heap p ! a)\<lparr>unusable := True\<rparr>]\<rparr>
      else p\<lparr>heap := (heap p)[a := (heap p ! a)\<lparr>lastAccess := now\<rparr>]\<rparr>)"

section \<open>Observations, sequential and interleaved runs\<close>

text \<open>
  What holds of the bounded queue between operations that do not overlap: the deque
  holds no more elements than the gate holds tokens, the gate is within its capacity,
  and the deque's own limit is the gate's capacity.
\<close>

definition bq_ok :: "'a blockingDeque \<Rightarrow> bool" where
  "bq_ok q \<longleftrightarrow>
     length (container (deque q)) \<le> gate_len q \<and> gate_len q \<le> gate_cap q \<and>
     capacity (deque q) = int (gate_cap q)"

definition tokens_in_gate :: "blockingPool \<Rightarrow> nat" where
  "tokens_in_gate p = (case conns p of None \<Rightarrow> 0 | Some q \<Rightarrow> gate_len q)"

definition queued :: "blockingPool \<Rightarrow> connptr list" where
  "queued p = (case conns p of None \<Rightarrow> [] | Some q \<Rightarrow> container (deque q))"

definition real_handles_queued :: "blockingPool \<Rightarrow> nat" where
  "real_handles_queued p = length (filter (\<lambda>c. c \<noteq> NilPtr) (queued p))"

text \<open>
  The pool states reached by runs in which the operations do not overlap: every
  operation runs both of its statements on the bounded queue before the next operation
  starts.  Handles are addressed only through pointers the pool has handed out, so an
  operation on a handle takes an allocated address.
\<close>

inductive sequential :: "blockingPool \<Rightarrow> bool" where
  r_new: "NewBlockingPool addr c oks nows = Inr p \<Longrightarrow> sequential p"
| r_Get: "sequential p \<Longrightarrow> sequential (snd (Get p ok now))"
| r_put: "sequential p \<Longrightarrow> a < length (heap p) \<Longrightarrow> sequential (snd (put p (Ptr a)))"
| r_Close: "sequential p \<Longrightarrow> a < length (heap p) \<Longrightarrow> sequential (snd (Close p a))"
| r_sweep: "sequential p \<Longrightarrow> sequential (snd (checkIdleConn p clock))"
| r_mark: "sequential p \<Longrightarrow> a < length (heap p) \<Longrightarrow> sequential (MarkUnusable p a)"
| r_Write: "sequential p \<Longrightarrow> a < length (heap p) \<Longrightarrow> sequential (Write p a ok now)"
| r_Read: "sequential p \<Longrightarrow> a < length (heap p) \<Longrightarrow> sequential (Read p a ok now)"
| r_dial: "sequential p \<Longrightarrow> sequential (snd (NewWrapConn p ok now))"

text \<open>
  Runs with several goroutines.  Whatever \<open>Get\<close>, \<open>put\<close>, \<open>Close\<close>, the idle sweep and the
  handle methods do to the pool, they do by the statements below: a send or a receive on
  the gate, a push or a pop on the deque, a dial, and the updates of one handle.  A run
  of the program is a sequence of such statements in the order the scheduler gives them.
  \<open>interleaved\<close> admits every such sequence after construction; it does not record which
  call a statement belongs to, so it admits every schedule of the program (and more).
  The statements on one handle are taken whole: they touch neither the gate nor the
  deque.  \<^verbatim>\<open>Update\<close>, which replaces the bounded queue, is not among the operations
  considered.
\<close>

datatype step =
    Send | Recv | PushTail connptr | PushHead connptr | PopTail
  | Dial bool int | Destroy nat | Mark nat | CheckIdle nat int
  | WriteTo nat bool int | ReadFrom nat bool int

definition on_conns ::
    "(connptr blockingDeque \<Rightarrow> connptr blockingDeque) \<Rightarrow> blockingPool \<Rightarrow> blockingPool" where
  "on_conns f p = (case conns p of None \<Rightarrow> p | Some q \<Rightarrow> p\<lparr>conns := Some (f q)\<rparr>)"

fun do_step :: "step \<Rightarrow> blockingPool \<Rightarrow> blockingPool" where
  "do_step Send p = on_conns (\<lambda>q. snd (gate_send q)) p"
| "do_step Recv p = on_conns (\<lambda>q. snd (gate_recv q)) p"
| "do_step (PushTail c) p = on_conns (\<lambda>q. push_tail q c) p"
| "do_step (PushHead c) p = on_conns (\<lambda>q. push_head q c) p"
| "do_step PopTail p = on_conns (\<lambda>q. snd (pop_tail q)) p"
| "do_step (Dial ok now) p = snd (NewWrapConn p ok now)"
| "do_step (Destroy a) p = destroy p a"
| "do_step (Mark a) p = MarkUnusable p a"
| "do_step (CheckIdle a now) p = snd (checkIdle p a now)"
| "do_step (WriteTo a ok now) p = Write p a ok now"
| "do_step (ReadFrom a ok now) p = Read p a ok now"

definition run :: "step list \<Rightarrow> blockingPool \<Rightarrow> blockingPool" where
  "run ss p = fold do_step ss p"

inductive interleaved :: "blockingPool \<Rightarrow> bool" where
  i_new: "NewBlockingPool addr c oks nows = Inr p \<Longrightarrow> interleaved p"
| i_step: "interleaved p \<Longrightarrow> interleaved (do_step s p)"

text \<open>
  What holds of the gate and the deque under every schedule: each is within the
  configured maximum capacity.
\<close>

definition gate_ok :: "blockingPool \<Rightarrow> bool" where
  "gate_ok p \<longleftrightarrow>
     (case conns p of
        None \<Rightarrow> False
      | Some q \<Rightarrow>
          gate_len q \<le> gate_cap q \<and> int (gate_cap q) = MaxCap (Config p) \<and>
          capacity (deque q) = MaxCap (Config p) \<and>
          int (length (container (deque q))) \<le> MaxCap (Config p))"

definition pool_ok :: "blockingPool \<Rightarrow> bool" where
  "pool_ok p \<longleftrightarrow>
     (case conns p of
        None \<Rightarrow> False
      | Some q \<Rightarrow>
          bq_ok q \<and> int (gate_cap q) = MaxCap (Config p) \<and>
          list_all (\<lambda>c. case c of NilPtr \<Rightarrow> True | Ptr a \<Rightarrow> a < length (heap p))
            (container (deque q)))"

text \<open>
  An element of the deque is visited by a traversal when no element up to and including
  it makes the visitor panic, that is, none is a nil pointer.
\<close>

definition visited :: "connptr list \<Rightarrow> nat \<Rightarrow> bool" where
  "visited xs k \<longleftrightarrow> k < length xs \<and> list_all (\<lambda>c. c \<noteq> NilPtr) (take (Suc k) xs)"

subsection \<open>Concrete pools\<close>

text \<open>
  \<open>fresh n\<close> is the pool the constructor returns for address \<^verbatim>\<open>srv\<close> and a requested
  maximum capacity \<open>n > 0\<close> with the default timeouts: a full gate over an empty deque.
\<close>

definition fresh :: "nat \<Rightarrow> blockingPool" where
  "fresh n =
     \<lparr>address = ''srv'',
      conns = Some \<lparr>deque = \<lparr>container = [], capacity = int n\<rparr>, gate_len = n, gate_cap = n\<rparr>,
      Config = defaultConfig\<lparr>MaxCap := int n\<rparr>, heap = [], dialed = []\<rparr>"

text \<open>
  After one acquire, a \<^verbatim>\<open>MarkUnusable\<close> and a \<^verbatim>\<open>Close\<close> of the handle on \<open>fresh 1\<close>.
\<close>

definition after_dead_close :: blockingPool where
  "after_dead_close = snd (Close (MarkUnusable (snd (Get (fresh 1) True 0)) 0) 0)"

text \<open>
  Two goroutines on \<open>fresh 1\<close>.  The first acquires handle A (address 0) and closes it:
  \<open>Close\<close> finds A usable and goes through \<open>put\<close> and \<open>putBottom\<close> into \<open>append\<close>, whose
  send on the gate succeeds.  Before \<open>append\<close> reaches its call of \<^verbatim>\<open>q.deque.append\<close>, the
  second goroutine runs a whole \<open>Get\<close>: it receives the token, pops nothing from the
  still empty deque and dials handle B (address 1).  Then the first goroutine pushes A.
\<close>

definition raced_pool :: blockingPool where
  "raced_pool =
     do_step (PushTail (Ptr 0))
       (snd (Get (do_step Send (snd (Get (fresh 1) True 0))) True 1))"

text \<open>
  Two acquires on a pool with two free slots (the handles get the addresses 0 and 1,
  called A and B), the release of A, then of B, and two more acquires.  The result lists
  the four acquired values.
\<close>

definition release_A_then_B ::
    "blockingPool \<Rightarrow> (error + nat) \<times> (error + nat) \<times> (error + nat) \<times> (error + nat)" where
  "release_A_then_B p =
     (let (A, p) = Get p True 0; (B, p) = Get p True 1;
          (_, p) = put p (Ptr 0); (_, p) = put p (Ptr 1);
          (x, p) = Get p True 2; (y, p) = Get p True 3
      in (A, B, x, y))"

section \<open>Merging configurations\<close>

text \<open>
  \<open>Merge\<close> in closed form: each of the five tunables takes the incoming value when that
  is positive, and the flag is raised exactly when one of the five guards fires.  The
  proof follows the five assignments one at a time.
\<close>

lemma Merge_eq:
  "Merge cur new =
     (cur\<lparr>MaxCap := (if MaxCap new > 0 then MaxCap new else MaxCap cur),
           DialTimeout := (if DialTimeout new > 0 then DialTimeout new else DialTimeout cur),
           IOTimeout := (if IOTimeout new > 0 then IOTimeout new else IOTimeout cur),
           WaitTimeout := (if WaitTimeout new > 0 then WaitTimeout new else WaitTimeout cur),
           IdleTimeout := (if IdleTimeout new > 0 then IdleTimeout new else IdleTimeout cur)\<rparr>,
      (MaxCap new > 0 \<and> MaxCap new \<noteq> MaxCap cur) \<or>
      (DialTimeout new > 0 \<and> DialTimeout new \<noteq> DialTimeout cur) \<or>
      (IOTimeout new > 0 \<and> IOTimeout new \<noteq> IOTimeout cur) \<or>
      (WaitTimeout new > 0 \<and> WaitTimeout new \<noteq> WaitTimeout cur) \<or>
      (IdleTimeout new > 0 \<and> IdleTimeout new \<noteq> IdleTimeout cur))"
proof -
  define s1 where "s1 =
    (if MaxCap new > 0 \<and> MaxCap new \<noteq> MaxCap cur
     then (cur\<lparr>MaxCap := MaxCap new\<rparr>, True) else (cur, False))"
  define s2 where "s2 =
    (if DialTimeout new > 0 \<and> DialTimeout new \<noteq> DialTimeout (fst s1)
     then ((fst s1)\<lparr>DialTimeout := DialTimeout new\<rparr>, True) else (fst s1, snd s1))"
  define s3 where "s3 =
    (if IOTimeout new > 0 \<and> IOTimeout new \<noteq> IOTimeout (fst s2)
     then ((fst s2)\<lparr>IOTimeout := IOTimeout new\<rparr>, True) else (fst s2, snd s2))"
  define s4 where "s4 =
    (if WaitTimeout new > 0 \<and> WaitTimeout new \<noteq> WaitTimeout (fst s3)
     then ((fst s3)\<lparr>WaitTimeout := WaitTimeout new\<rparr>, True) else (fst s3, snd s3))"
  define s5 where "s5 =
    (if IdleTimeout new > 0 \<and> IdleTimeout new \<noteq> IdleTimeout (fst s4)
     then ((fst s4)\<lparr>IdleTimeout := IdleTimeout new\<rparr>, True) else (fst s4, snd s4))"
  have M: "Merge cur new = (fst s5, snd s5)"
    unfolding Merge_def Let_def split_def s5_def s4_def s3_def s2_def s1_def ..
  have f1: "fst s1 = cur\<lparr>MaxCap := (if MaxCap new > 0 then MaxCap new else MaxCap cur)\<rparr>"
    by (simp add: s1_def)
  have f2: "fst s2 = (fst s1)\<lparr>DialTimeout :=
      (if DialTimeout new > 0 then DialTimeout new else DialTimeout cur)\<rparr>"
    by (simp add: s2_def f1)
  have f3: "fst s3 = (fst s2)\<lparr>IOTimeout :=
      (if IOTimeout new > 0 then IOTimeout new else IOTimeout cur)\<rparr>"
    by (simp add: s3_def f2 f1)
  have f4: "fst s4 = (fst s3)\<lparr>WaitTimeout :=
      (if WaitTimeout new > 0 then WaitTimeout new else WaitTimeout cur)\<rparr>"
    by (simp add: s4_def f3 f2 f1)
  have f5: "fst s5 = (fst s4)\<lparr>IdleTimeout :=
      (if IdleTimeout new > 0 then IdleTimeout new else IdleTimeout cur)\<rparr>"
    by (simp add: s5_def f4 f3 f2 f1)
  have g1: "snd s1 = (MaxCap new > 0 \<and> MaxCap new \<noteq> MaxCap cur)"
    by (simp add: s1_def)
  have g2: "snd s2 = ((DialTimeout new > 0 \<and> DialTimeout new \<noteq> DialTimeout cur) \<or> snd s1)"
    by (auto simp: s2_def f1)
  have g3: "snd s3 = ((IOTimeout new > 0 \<and> IOTimeout new \<noteq> IOTimeout cur) \<or> snd s2)"
    by (auto simp: s3_def f2 f1)
  have g4: "snd s4 = ((WaitTimeout new > 0 \<and> WaitTimeout new \<noteq> WaitTimeout cur) \<or> snd s3)"
    by (auto simp: s4_def f3 f2 f1)
  have g5: "snd s5 = ((IdleTimeout new > 0 \<and> IdleTimeout new \<noteq> IdleTimeout cur) \<or> snd s4)"
    by (auto simp: s5_def f4 f3 f2 f1)
  have "snd s5 =
     ((MaxCap new > 0 \<and> MaxCap new \<noteq> MaxCap cur) \<or>
      (DialTimeout new > 0 \<and> DialTimeout new \<noteq> DialTimeout cur) \<or>
      (IOTimeout new > 0 \<and> IOTimeout new \<noteq> IOTimeout cur) \<or>
      (WaitTimeout new > 0 \<and> WaitTimeout new \<noteq> WaitTimeout cur) \<or>
      (IdleTimeout new > 0 \<and> IdleTimeout new \<noteq> IdleTimeout cur))"
    unfolding g5 g4 g3 g2 g1 by blast
  then show ?thesis
    unfolding M f5 f4 f3 f2 f1 by (simp only:)
qed

lemma Merge_fst:
  "fst (Merge cur new) =
     cur\<lparr>MaxCap := (if MaxCap new > 0 then MaxCap new else MaxCap cur),
          DialTimeout := (if DialTimeout new > 0 then DialTimeout new else DialTimeout cur),
          IOTimeout := (if IOTimeout new > 0 then IOTimeout new else IOTimeout cur),
          WaitTimeout := (if WaitTimeout new > 0 then WaitTimeout new else WaitTimeout cur),
          IdleTimeout := (if IdleTimeout new > 0 then IdleTimeout new else IdleTimeout cur)\<rparr>"
  by (simp only: Merge_eq fst_conv)

lemma Merge_changed:
  "snd (Merge cur new) =
     ((MaxCap new > 0 \<and> MaxCap new \<noteq> MaxCap cur) \<or>
      (DialTimeout new > 0 \<and> DialTimeout new \<noteq> DialTimeout cur) \<or>
      (IOTimeout new > 0 \<and> IOTimeout new \<noteq> IOTimeout cur) \<or>
      (WaitTimeout new > 0 \<and> WaitTimeout new \<noteq> WaitTimeout cur) \<or>
      (IdleTimeout new > 0 \<and> IdleTimeout new \<noteq> IdleTimeout cur))"
  by (simp only: Merge_eq snd_conv)

lemma Merge_InitCap: "InitCap (fst (Merge cur new)) = InitCap cur"
  by (simp add: Merge_fst)

lemma Merge_CacheMethod: "CacheMethod (fst (Merge cur new)) = CacheMethod cur"
  by (simp add: Merge_fst)

lemma Merge_MaxCap:
  "MaxCap (fst (Merge cur new)) = (if MaxCap new > 0 then MaxCap new else MaxCap cur)"
  by (simp add: Merge_fst)

section \<open>Construction\<close>

lemma preload_eq:
  "gate_len q \<le> gate_cap q \<Longrightarrow>
   preload n q =
     (if gate_len q + n \<le> gate_cap q then Inr (q\<lparr>gate_len := gate_len q + n\<rparr>)
      else Inl BlockedForever)"
  by (induction n arbitrary: q) auto

lemma newBlockingDeque_eq:
  "newBlockingDeque maxCap nilCap =
     (if maxCap < 0 then Inl PanicMakeChan
      else if nilCap > maxCap then Inl BlockedForever
      else Inr \<lparr>deque = newDeque maxCap, gate_len = nat nilCap, gate_cap = nat maxCap\<rparr>)"
  by (auto simp: newBlockingDeque_def preload_eq)

text \<open>
  The constructor in closed form.  The merged configuration has \<open>InitCap = 0\<close> and a
  positive \<open>MaxCap\<close>, so the gate is preloaded with \<open>MaxCap\<close> tokens and the eager loop
  has no iteration.
\<close>

lemma NewBlockingPool_eq:
  "NewBlockingPool addr c oks nows =
     (if InitCap c > MaxCap c then Inl ErrInvalidCap
      else Inr \<lparr>address = addr,
                conns = Some \<lparr>deque = \<lparr>container = [],
                                        capacity = MaxCap (fst (Merge defaultConfig c))\<rparr>,
                              gate_len = nat (MaxCap (fst (Merge defaultConfig c))),
                              gate_cap = nat (MaxCap (fst (Merge defaultConfig c)))\<rparr>,
                Config = fst (Merge defaultConfig c), heap = [], dialed = []\<rparr>)"
proof -
  let ?c = "fst (Merge defaultConfig c)"
  have i: "InitCap ?c = 0" by (simp add: Merge_InitCap defaultConfig_def)
  have m: "MaxCap ?c > 0" by (simp add: Merge_MaxCap defaultConfig_def)
  show ?thesis
    using m by (simp add: NewBlockingPool_def Let_def i newBlockingDeque_eq newDeque_def)
qed

lemma fresh_built:
  "0 < n \<Longrightarrow>
   NewBlockingPool ''srv'' (defaultConfig\<lparr>MaxCap := int n\<rparr>) oks nows = Inr (fresh n)"
  by (simp add: NewBlockingPool_eq Merge_fst fresh_def defaultConfig_def Second_def)

text \<open>
  C10.  \<open>Merge\<close> returns the receiver's \<open>InitCap\<close> and \<open>CacheMethod\<close> whatever the incoming
  configuration holds; the changed flag does not depend on the incoming values of these
  two fields, and an incoming configuration that differs from the receiver in these two
  fields only leaves the flag down.  Hence \<open>NewBlockingPool\<close>, which merges the caller's
  configuration into \<open>defaultConfig\<close>, either rejects the capacities or builds a pool
  whose configuration has \<open>InitCap = 0\<close> and \<open>CacheMethod = FIFO\<close>.
\<close>

theorem Merge_keeps_InitCap_CacheMethod:
  "InitCap (fst (Merge cur new)) = InitCap cur \<and>
   CacheMethod (fst (Merge cur new)) = CacheMethod cur \<and>
   snd (Merge cur (new\<lparr>CacheMethod := m, InitCap := i\<rparr>)) = snd (Merge cur new) \<and>
   snd (Merge cur (cur\<lparr>CacheMethod := m, InitCap := i\<rparr>)) = False \<and>
   NewBlockingPool addr c oks nows =
     (if InitCap c > MaxCap c then Inl ErrInvalidCap
      else Inr \<lparr>address = addr,
                conns = Some \<lparr>deque = \<lparr>container = [],
                                        capacity = MaxCap (fst (Merge defaultConfig c))\<rparr>,
                              gate_len = nat (MaxCap (fst (Merge defaultConfig c))),
                              gate_cap = nat (MaxCap (fst (Merge defaultConfig c)))\<rparr>,
                Config = fst (Merge defaultConfig c), heap = [], dialed = []\<rparr>) \<and>
   InitCap (fst (Merge defaultConfig c)) = 0 \<and>
   CacheMethod (fst (Merge defaultConfig c)) = FIFO"
proof -
  have "snd (Merge cur (new\<lparr>CacheMethod := m, InitCap := i\<rparr>)) = snd (Merge cur new)"
    by (simp add: Merge_changed)
  moreover have "snd (Merge cur (cur\<lparr>CacheMethod := m, InitCap := i\<rparr>)) = False"
    by (simp add: Merge_changed)
  moreover have "InitCap (fst (Merge defaultConfig c)) = 0"
    by (simp add: Merge_InitCap defaultConfig_def)
  moreover have "CacheMethod (fst (Merge defaultConfig c)) = FIFO"
    by (simp add: Merge_CacheMethod defaultConfig_def)
  ultimately show ?thesis
    using Merge_InitCap [of cur new] Merge_CacheMethod [of cur new]
      NewBlockingPool_eq [of addr c oks nows]
    by simp
qed

section \<open>The bounded queue\<close>

lemma newBlockingDeque_ok: "newBlockingDeque maxCap nilCap = Inr q \<Longrightarrow> bq_ok q"
  by (auto simp: newBlockingDeque_eq bq_ok_def newDeque_def split: if_splits)

lemma bq_pop_ok: "bq_ok q \<Longrightarrow> bq_ok (snd (bq_pop q timeout))"
  by (auto simp: bq_pop_def bq_ok_def deque_pop_def split: list.splits)

lemma bq_append_eq:
  "bq_ok q \<Longrightarrow>
   bq_append q item =
     (if gate_len q = gate_cap q then (Some errDequeFull, q)
      else (None, q\<lparr>deque := (deque q)\<lparr>container := container (deque q) @ [item]\<rparr>,
                     gate_len := gate_len q + 1\<rparr>))"
  by (auto simp: bq_append_def bq_ok_def deque_append_def)

lemma bq_prepend_eq:
  "bq_ok q \<Longrightarrow>
   bq_prepend q item =
     (if gate_len q = gate_cap q then (Some errDequeFull, q)
      else (None, q\<lparr>deque := (deque q)\<lparr>container := item # container (deque q)\<rparr>,
                     gate_len := gate_len q + 1\<rparr>))"
  by (auto simp: bq_prepend_def bq_ok_def deque_prepend_def)

lemma bq_append_ok: "bq_ok q \<Longrightarrow> bq_ok (snd (bq_append q item))"
  by (auto simp: bq_append_eq) (auto simp: bq_ok_def)

lemma bq_prepend_ok: "bq_ok q \<Longrightarrow> bq_ok (snd (bq_prepend q item))"
  by (auto simp: bq_prepend_eq) (auto simp: bq_ok_def)

text \<open>The whole operations are their two statements run back to back.\<close>

lemma bq_append_steps:
  "bq_append q item =
     (if fst (gate_send q) then (None, push_tail (snd (gate_send q)) item)
      else (Some errDequeFull, q))"
  by (simp add: bq_append_def gate_send_def push_tail_def)

lemma bq_prepend_steps:
  "bq_prepend q item =
     (if fst (gate_send q) then (None, push_head (snd (gate_send q)) item)
      else (Some errDequeFull, q))"
  by (simp add: bq_prepend_def gate_send_def push_head_def)

lemma bq_pop_steps:
  "bq_pop q timeout =
     (if fst (gate_recv q)
      then (Inr (fst (pop_tail (snd (gate_recv q)))), snd (pop_tail (snd (gate_recv q))))
      else (Inl ErrTimeout, q))"
  by (simp add: bq_pop_def gate_recv_def pop_tail_def split_def Let_def)

lemma Get_fresh1:
  "Get (fresh 1) True 0 =
     (Inr 0,
      \<lparr>address = ''srv'',
       conns = Some \<lparr>deque = \<lparr>container = [], capacity = 1\<rparr>, gate_len = 0, gate_cap = 1\<rparr>,
       Config = defaultConfig\<lparr>MaxCap := 1\<rparr>,
       heap = [\<lparr>unusable = False, lastAccess = 0, closed = False\<rparr>],
       dialed = [(''srv'', 30 * Second)]\<rparr>)"
  by (simp add: Get_def fresh_def bq_pop_def deque_pop_def NewWrapConn_def Let_def
      defaultConfig_def)

text \<open>
  The state after the overlapping \<open>Close\<close> and \<open>Get\<close>: the gate is empty, the deque holds
  handle A and is at its capacity.
\<close>

lemma raced_pool_eq:
  "raced_pool =
     \<lparr>address = ''srv'',
      conns = Some \<lparr>deque = \<lparr>container = [Ptr 0], capacity = 1\<rparr>, gate_len = 0, gate_cap = 1\<rparr>,
      Config = defaultConfig\<lparr>MaxCap := 1\<rparr>,
      heap = [\<lparr>unusable = False, lastAccess = 0, closed = False\<rparr>,
              \<lparr>unusable = False, lastAccess = 1, closed = False\<rparr>],
      dialed = [(''srv'', 30 * Second), (''srv'', 30 * Second)]\<rparr>"
  unfolding raced_pool_def Get_fresh1
  by (simp add: on_conns_def gate_send_def push_tail_def deque_append_def Get_def bq_pop_def
      deque_pop_def NewWrapConn_def Let_def defaultConfig_def)




section \<open>The pool invariant\<close>

lemma pool_ok_frame:
  assumes "pool_ok p" "conns p' = conns p" "Config p' = Config p"
    and "length (heap p) \<le> length (heap p')"
  shows "pool_ok p'"
proof -
  from assms(1) obtain q where q: "conns p = Some q" "bq_ok q"
    "int (gate_cap q) = MaxCap (Config p)"
    "list_all (\<lambda>c. case c of NilPtr \<Rightarrow> True | Ptr a \<Rightarrow> a < length (heap p)) (container (deque q))"
    by (auto simp: pool_ok_def split: option.splits)
  from q(4) assms(4)
  have "list_all (\<lambda>c. case c of NilPtr \<Rightarrow> True | Ptr a \<Rightarrow> a < length (heap p')) (container (deque q))"
    by (auto simp: list_all_iff split: connptr.splits)
  with q assms show ?thesis by (simp add: pool_ok_def)
qed

lemma NewBlockingPool_ok: "NewBlockingPool addr c oks nows = Inr p \<Longrightarrow> pool_ok p"
proof -
  assume a: "NewBlockingPool addr c oks nows = Inr p"
  have m: "MaxCap (fst (Merge defaultConfig c)) > 0"
    by (simp add: Merge_MaxCap defaultConfig_def)
  from a m show ?thesis
    by (auto simp: NewBlockingPool_eq pool_ok_def bq_ok_def split: if_splits)
qed

lemma NewWrapConn_frame:
  "conns (snd (NewWrapConn p ok now)) = conns p"
  "Config (snd (NewWrapConn p ok now)) = Config p"
  "length (heap p) \<le> length (heap (snd (NewWrapConn p ok now)))"
  by (simp_all add: NewWrapConn_def Let_def)

lemma NewWrapConn_ok: "pool_ok p \<Longrightarrow> pool_ok (snd (NewWrapConn p ok now))"
  by (rule pool_ok_frame [OF _ NewWrapConn_frame])

lemma destroy_frame:
  "conns (destroy p a) = conns p" "Config (destroy p a) = Config p"
  "length (heap (destroy p a)) = length (heap p)"
  by (simp_all add: destroy_def)

lemma pool_ok_conns:
  assumes "pool_ok p" "conns p = Some q" "bq_ok q'" "gate_cap q' = gate_cap q"
    and "set (container (deque q')) \<subseteq> set (container (deque q)) \<union> {NilPtr} \<union> Ptr ` {a. a < length (heap p)}"
  shows "pool_ok (p\<lparr>conns := Some q'\<rparr>)"
  using assms by (auto simp: pool_ok_def list_all_iff split: connptr.splits)

lemma bq_pop_frame:
  "gate_cap (snd (bq_pop q t)) = gate_cap q"
  "set (container (deque (snd (bq_pop q t)))) \<subseteq> set (container (deque q))"
  by (auto simp: bq_pop_def deque_pop_def split: list.splits dest: in_set_butlastD)

lemma bq_append_frame:
  "gate_cap (snd (bq_append q x)) = gate_cap q"
  "set (container (deque (snd (bq_append q x)))) \<subseteq> insert x (set (container (deque q)))"
  by (auto simp: bq_append_def deque_append_def)

lemma bq_prepend_frame:
  "gate_cap (snd (bq_prepend q x)) = gate_cap q"
  "set (container (deque (snd (bq_prepend q x)))) \<subseteq> insert x (set (container (deque q)))"
  by (auto simp: bq_prepend_def deque_prepend_def)

lemma pop_ok:
  assumes "pool_ok p" "conns p = Some q"
  shows "pool_ok (p\<lparr>conns := Some (snd (bq_pop q t))\<rparr>)"
proof (rule pool_ok_conns [OF assms])
  from assms show "bq_ok (snd (bq_pop q t))"
    by (auto simp: pool_ok_def intro: bq_pop_ok)
qed (use bq_pop_frame [of q t] in auto)

lemma Get_ok: "pool_ok p \<Longrightarrow> pool_ok (snd (Get p ok now))"
proof -
  assume ok: "pool_ok p"
  then obtain q where q: "conns p = Some q" by (auto simp: pool_ok_def split: option.splits)
  obtain r q' where pop: "bq_pop q (WaitTimeout (Config p)) = (r, q')" by fastforce
  from pop_ok [OF ok q, of "WaitTimeout (Config p)"] pop
  have ok': "pool_ok (p\<lparr>conns := Some q'\<rparr>)" by simp
  show ?thesis
    using ok' NewWrapConn_ok [OF ok']
    by (auto simp: Get_def q pop Let_def split: sum.splits option.splits connptr.splits)
qed

lemma putBottom_ok:
  assumes "pool_ok p" "c = NilPtr \<or> (\<exists>a. c = Ptr a \<and> a < length (heap p))"
  shows "pool_ok (snd (putBottom p c))"
proof -
  from assms(1) obtain q where q: "conns p = Some q" "bq_ok q"
    by (auto simp: pool_ok_def split: option.splits)
  have "pool_ok (p\<lparr>conns := Some (snd (bq_append q c))\<rparr>)"
  proof (rule pool_ok_conns [OF assms(1) q(1)])
    show "bq_ok (snd (bq_append q c))" using q(2) by (rule bq_append_ok)
  qed (use bq_append_frame [of q c] assms(2) in auto)
  then show ?thesis by (simp add: putBottom_def q)
qed

lemma putTop_ok:
  assumes "pool_ok p" "c = NilPtr \<or> (\<exists>a. c = Ptr a \<and> a < length (heap p))"
  shows "pool_ok (snd (putTop p c))"
proof -
  from assms(1) obtain q where q: "conns p = Some q" "bq_ok q"
    by (auto simp: pool_ok_def split: option.splits)
  have "pool_ok (p\<lparr>conns := Some (snd (bq_prepend q c))\<rparr>)"
  proof (rule pool_ok_conns [OF assms(1) q(1)])
    show "bq_ok (snd (bq_prepend q c))" using q(2) by (rule bq_prepend_ok)
  qed (use bq_prepend_frame [of q c] assms(2) in auto)
  then show ?thesis by (simp add: putTop_def q)
qed

lemma put_ok:
  "pool_ok p \<Longrightarrow> c = NilPtr \<or> (\<exists>a. c = Ptr a \<and> a < length (heap p)) \<Longrightarrow> pool_ok (snd (put p c))"
  by (simp add: put_def putBottom_ok putTop_ok)

lemma destroy_ok: "pool_ok p \<Longrightarrow> pool_ok (destroy p a)"
  by (rule pool_ok_frame [where p = p]) (simp_all add: destroy_frame)

lemma MarkUnusable_ok: "pool_ok p \<Longrightarrow> pool_ok (MarkUnusable p a)"
  by (rule pool_ok_frame [where p = p]) (simp_all add: MarkUnusable_def)

lemma Write_ok: "pool_ok p \<Longrightarrow> pool_ok (Write p a ok now)"
  by (rule pool_ok_frame [where p = p]) (simp_all add: Write_def)

lemma Read_ok: "pool_ok p \<Longrightarrow> pool_ok (Read p a ok now)"
  by (rule pool_ok_frame [where p = p]) (simp_all add: Read_def)

lemma Close_ok:
  assumes "pool_ok p" "a < length (heap p)"
  shows "pool_ok (snd (Close p a))"
proof (cases "unusable (heap p ! a)")
  case True
  have "pool_ok (snd (putBottom (destroy p a) NilPtr))"
    by (rule putBottom_ok [OF destroy_ok [OF assms(1)]]) simp
  with True show ?thesis
    by (auto simp: Close_def split: prod.splits option.splits error.splits)
next
  case False
  have "pool_ok (snd (put p (Ptr a)))"
    by (rule put_ok [OF assms(1)]) (use assms(2) in simp)
  with False show ?thesis
    by (auto simp: Close_def destroy_ok split: prod.splits option.splits error.splits)
qed

section \<open>The idle sweep\<close>

lemma sweepFn_simps:
  "sweepFn clock NilPtr st = (Some PanicNilDeref, st)"
  "sweepFn clock (Ptr a) (i, p) = (None, Suc i, snd (checkIdle p a (clock i)))"
  by (simp_all add: sweepFn_def)

lemma checkIdle_frame:
  "conns (snd (checkIdle p a now)) = conns p"
  "Config (snd (checkIdle p a now)) = Config p"
  "length (heap (snd (checkIdle p a now))) = length (heap p)"
  by (simp_all add: checkIdle_def destroy_def)

lemma checkIdle_heap_eq:
  "heap (snd (checkIdle p a now)) =
     (if now - lastAccess (heap p ! a) > IdleTimeout (Config p)
      then (heap p)[a := (heap p ! a)\<lparr>unusable := True, closed := True\<rparr>]
      else heap p)"
proof (cases "a < length (heap p)")
  case True
  then show ?thesis by (simp add: checkIdle_def destroy_def)
next
  case False
  then have "length (heap p) \<le> a" by simp
  then show ?thesis by (simp add: checkIdle_def destroy_def list_update_beyond)
qed

lemma checkIdle_heap:
  "lastAccess (heap (snd (checkIdle p a now)) ! b) = lastAccess (heap p ! b)"
  "unusable (heap p ! b) \<Longrightarrow> unusable (heap (snd (checkIdle p a now)) ! b)"
  "closed (heap p ! b) \<Longrightarrow> closed (heap (snd (checkIdle p a now)) ! b)"
proof -
  have "lastAccess (heap (snd (checkIdle p a now)) ! b) = lastAccess (heap p ! b) \<and>
    (unusable (heap p ! b) \<longrightarrow> unusable (heap (snd (checkIdle p a now)) ! b)) \<and>
    (closed (heap p ! b) \<longrightarrow> closed (heap (snd (checkIdle p a now)) ! b))"
  proof (cases "a < length (heap p)")
    case True
    then show ?thesis
      by (cases "b = a") (simp_all add: checkIdle_heap_eq)
  next
    case False
    then have "length (heap p) \<le> a" by simp
    then show ?thesis by (simp add: checkIdle_heap_eq list_update_beyond)
  qed
  then show "lastAccess (heap (snd (checkIdle p a now)) ! b) = lastAccess (heap p ! b)"
    "unusable (heap p ! b) \<Longrightarrow> unusable (heap (snd (checkIdle p a now)) ! b)"
    "closed (heap p ! b) \<Longrightarrow> closed (heap (snd (checkIdle p a now)) ! b)"
    by simp_all
qed

lemma checkIdle_marks:
  "a < length (heap p) \<Longrightarrow> now - lastAccess (heap p ! a) > IdleTimeout (Config p) \<Longrightarrow>
   unusable (heap (snd (checkIdle p a now)) ! a) \<and> closed (heap (snd (checkIdle p a now)) ! a)"
  by (simp add: checkIdle_def destroy_def)

lemma sweep_frame:
  "walk_from (sweepFn clock) xs (i, p) = (r, j, p') \<Longrightarrow>
   conns p' = conns p \<and> Config p' = Config p \<and> length (heap p') = length (heap p) \<and>
   lastAccess (heap p' ! b) = lastAccess (heap p ! b) \<and>
   (unusable (heap p ! b) \<longrightarrow> unusable (heap p' ! b)) \<and>
   (closed (heap p ! b) \<longrightarrow> closed (heap p' ! b))"
proof (induction xs arbitrary: i p)
  case Nil
  then show ?case by simp
next
  case (Cons x xs)
  show ?case
  proof (cases x)
    case NilPtr
    with Cons.prems show ?thesis by (simp add: sweepFn_simps)
  next
    case (Ptr a)
    let ?p1 = "snd (checkIdle p a (clock i))"
    from Cons.prems Ptr have "walk_from (sweepFn clock) xs (Suc i, ?p1) = (r, j, p')"
      by (simp add: sweepFn_simps)
    from Cons.IH [OF this] show ?thesis
      by (simp add: checkIdle_frame checkIdle_heap)
  qed
qed

lemma sweep_marks:
  "walk_from (sweepFn clock) xs (i, p) = (r, j, p') \<Longrightarrow> visited xs k \<Longrightarrow>
   xs ! k = Ptr a \<Longrightarrow> a < length (heap p) \<Longrightarrow>
   clock (i + k) - lastAccess (heap p ! a) > IdleTimeout (Config p) \<Longrightarrow>
   unusable (heap p' ! a) \<and> closed (heap p' ! a)"
proof (induction xs arbitrary: i p k)
  case Nil
  then show ?case by (simp add: visited_def)
next
  case (Cons x xs)
  from Cons.prems(2) obtain b where x: "x = Ptr b"
    by (cases x) (auto simp: visited_def)
  let ?p1 = "snd (checkIdle p b (clock i))"
  from Cons.prems(1) x have w: "walk_from (sweepFn clock) xs (Suc i, ?p1) = (r, j, p')"
    by (simp add: sweepFn_simps)
  show ?case
  proof (cases k)
    case 0
    with Cons.prems x have "unusable (heap ?p1 ! a) \<and> closed (heap ?p1 ! a)"
      by (simp add: checkIdle_marks)
    with sweep_frame [OF w, of a] show ?thesis by simp
  next
    case (Suc k')
    with Cons.prems have v: "visited xs k'" and n: "xs ! k' = Ptr a"
      by (auto simp: visited_def)
    from Cons.prems Suc
    have "clock (Suc i + k') - lastAccess (heap ?p1 ! a) > IdleTimeout (Config ?p1)"
      by (simp add: checkIdle_frame checkIdle_heap)
    moreover from Cons.prems have "a < length (heap ?p1)" by (simp add: checkIdle_frame checkIdle_heap)
    ultimately show ?thesis using Cons.IH [OF w v n] by simp
  qed
qed

lemma checkIdleConn_frame:
  "conns (snd (checkIdleConn p clock)) = conns p \<and>
   Config (snd (checkIdleConn p clock)) = Config p \<and>
   length (heap (snd (checkIdleConn p clock))) = length (heap p)"
proof (cases "conns p")
  case None
  then show ?thesis by (simp add: checkIdleConn_def)
next
  case (Some q)
  obtain r j p' where w: "walk_from (sweepFn clock) (container (deque q)) (0, p) = (r, j, p')"
    using prod_cases3 by blast
  from sweep_frame [OF w] w Some show ?thesis
    by (simp add: checkIdleConn_def deque_walk_def)
qed

lemma checkIdleConn_ok: "pool_ok p \<Longrightarrow> pool_ok (snd (checkIdleConn p clock))"
  by (rule pool_ok_frame [where p = p]) (simp_all add: checkIdleConn_frame)

text \<open>
  C8.  In one round of the idle sweep, a handle that is visited (element \<open>k\<close> of the
  deque, reached by the traversal) and whose time since last access, read at its visit,
  strictly exceeds the configured idle timeout has its unusable flag set and its
  transport closed; the bounded queue after the sweep is the queue before it, so the
  handle is still element \<open>k\<close> and no element was removed or moved.
\<close>

theorem idle_sweep_marks_in_place:
  assumes "conns p = Some q" and "visited (container (deque q)) k"
    and "container (deque q) ! k = Ptr a" and "a < length (heap p)"
    and "clock k - lastAccess (heap p ! a) > IdleTimeout (Config p)"
  shows "unusable (heap (snd (checkIdleConn p clock)) ! a) \<and>
         closed (heap (snd (checkIdleConn p clock)) ! a) \<and>
         conns (snd (checkIdleConn p clock)) = Some q \<and>
         queued (snd (checkIdleConn p clock)) ! k = Ptr a \<and>
         queued (snd (checkIdleConn p clock)) = queued p"
proof -
  obtain r j p' where w: "walk_from (sweepFn clock) (container (deque q)) (0, p) = (r, j, p')"
    using prod_cases3 by blast
  then have p': "snd (checkIdleConn p clock) = p'"
    by (simp add: checkIdleConn_def deque_walk_def assms(1))
  from sweep_marks [OF w assms(2) assms(3) assms(4)] assms(5)
  have "unusable (heap p' ! a) \<and> closed (heap p' ! a)" by simp
  moreover from sweep_frame [OF w] have "conns p' = Some q" by (simp add: assms(1))
  ultimately show ?thesis
    using assms(1,3) by (simp add: p' queued_def)
qed

theorem idle_sweep_marks_in_place_witness:
  "visited [Ptr 0, Ptr 1] (Suc 0) \<and>
   (4000000001::int) - 0 > IdleTimeout (defaultConfig\<lparr>MaxCap := 2\<rparr>) \<and>
   snd (checkIdleConn
     \<lparr>address = ''srv'',
      conns = Some \<lparr>deque = \<lparr>container = [Ptr 0, Ptr 1], capacity = 2\<rparr>,
                    gate_len = 2, gate_cap = 2\<rparr>,
      Config = defaultConfig\<lparr>MaxCap := 2\<rparr>,
      heap = [\<lparr>unusable = False, lastAccess = 4000000000, closed = False\<rparr>,
              \<lparr>unusable = False, lastAccess = 0, closed = False\<rparr>],
      dialed = [(''srv'', 30000000000), (''srv'', 30000000000)]\<rparr>
     (\<lambda>i. 4000000000 + int i)) =
     \<lparr>address = ''srv'',
      conns = Some \<lparr>deque = \<lparr>container = [Ptr 0, Ptr 1], capacity = 2\<rparr>,
                    gate_len = 2, gate_cap = 2\<rparr>,
      Config = defaultConfig\<lparr>MaxCap := 2\<rparr>,
      heap = [\<lparr>unusable = False, lastAccess = 4000000000, closed = False\<rparr>,
              \<lparr>unusable = True, lastAccess = 0, closed = True\<rparr>],
      dialed = [(''srv'', 30000000000), (''srv'', 30000000000)]\<rparr>"
proof -
  let ?q = "\<lparr>deque = \<lparr>container = [Ptr 0, Ptr 1], capacity = 2\<rparr>, gate_len = 2, gate_cap = 2\<rparr>"
  let ?p = "\<lparr>address = ''srv'', conns = Some ?q, Config = defaultConfig\<lparr>MaxCap := 2\<rparr>,
      heap = [\<lparr>unusable = False, lastAccess = 4000000000, closed = False\<rparr>,
              \<lparr>unusable = False, lastAccess = 0, closed = False\<rparr>],
      dialed = [(''srv'', 30000000000), (''srv'', 30000000000)]\<rparr>"
  let ?clock = "\<lambda>i. 4000000000 + int i"
  have v: "visited (container (deque ?q)) (Suc 0)" by (simp add: visited_def)
  have t: "?clock (Suc 0) - lastAccess (heap ?p ! Suc 0) > IdleTimeout (Config ?p)"
    by (simp add: defaultConfig_def Second_def)
  have m: "unusable (heap (snd (checkIdleConn ?p ?clock)) ! Suc 0) \<and>
        closed (heap (snd (checkIdleConn ?p ?clock)) ! Suc 0)"
    using idle_sweep_marks_in_place [of ?p ?q "Suc 0" "Suc 0" ?clock, OF _ v _ _ t]
    by simp
  have e: "snd (checkIdleConn ?p ?clock) =
     ?p\<lparr>heap := [\<lparr>unusable = False, lastAccess = 4000000000, closed = False\<rparr>,
                 \<lparr>unusable = True, lastAccess = 0, closed = True\<rparr>]\<rparr>"
    by (simp add: checkIdleConn_def deque_walk_def sweepFn_simps checkIdle_def destroy_def
        defaultConfig_def Second_def)
  show ?thesis
    using v m e by (simp add: defaultConfig_def Second_def)
qed

section \<open>Sequential runs\<close>

lemma sequential_ok: "sequential p \<Longrightarrow> pool_ok p"
  by (induction rule: sequential.induct)
     (auto intro: NewBlockingPool_ok Get_ok put_ok Close_ok checkIdleConn_ok MarkUnusable_ok
        Write_ok Read_ok NewWrapConn_ok)

section \<open>Eager creation\<close>

lemma Get_fresh2:
  "Get (fresh 2) True 5 =
     (Inr 0,
      \<lparr>address = ''srv'',
       conns = Some \<lparr>deque = \<lparr>container = [], capacity = 2\<rparr>, gate_len = 1, gate_cap = 2\<rparr>,
       Config = defaultConfig\<lparr>MaxCap := 2\<rparr>,
       heap = [\<lparr>unusable = False, lastAccess = 5, closed = False\<rparr>],
       dialed = [(''srv'', 30 * Second)]\<rparr>)"
  by (simp add: Get_def fresh_def bq_pop_def deque_pop_def NewWrapConn_def Let_def
      defaultConfig_def)

text \<open>
  C1 (the code departs from the specification).  A pool requested with \<open>InitCap = 1\<close> and
  \<open>MaxCap = 2\<close> is built with an empty deque and without any call of the factory, and
  already the first acquire dials: the merge into \<open>defaultConfig\<close> has dropped the
  requested \<open>InitCap\<close>, so the eager loop of the constructor never runs.
\<close>

theorem InitCap_not_honoured:
  "NewBlockingPool ''srv'' (defaultConfig\<lparr>InitCap := 1, MaxCap := 2\<rparr>) oks nows =
     Inr (fresh 2) \<and>
   queued (fresh 2) = [] \<and> heap (fresh 2) = [] \<and> dialed (fresh 2) = [] \<and>
   fst (Get (fresh 2) True 5) = Inr 0 \<and>
   dialed (snd (Get (fresh 2) True 5)) = [(''srv'', 30 * Second)]"
proof -
  have "NewBlockingPool ''srv'' (defaultConfig\<lparr>InitCap := 1, MaxCap := 2\<rparr>) oks nows =
     Inr (fresh 2)"
    by (simp add: NewBlockingPool_eq Merge_fst fresh_def defaultConfig_def Second_def)
  moreover have "queued (fresh 2) = [] \<and> heap (fresh 2) = [] \<and> dialed (fresh 2) = []"
    by (simp add: fresh_def queued_def)
  ultimately show ?thesis by (simp add: Get_fresh2)
qed

text \<open>
  C6 (the code departs from the specification).  For the same request the gate is full, but all
  of its \<open>MaxCap = 2\<close> tokens are preloaded (\<open>MaxCap - InitCap\<close> is computed after the
  merge, with \<open>InitCap = 0\<close>), no handle is pushed and no token is backed by a deque
  element.
\<close>

theorem construction_preloads_MaxCap:
  "MaxCap (fst (Merge defaultConfig (defaultConfig\<lparr>InitCap := 1, MaxCap := 2\<rparr>))) -
     InitCap (fst (Merge defaultConfig (defaultConfig\<lparr>InitCap := 1, MaxCap := 2\<rparr>))) = 2 \<and>
   (newBlockingDeque 2 2 :: error + connptr blockingDeque) =
     Inr \<lparr>deque = \<lparr>container = [], capacity = 2\<rparr>, gate_len = 2, gate_cap = 2\<rparr> \<and>
   NewBlockingPool ''srv'' (defaultConfig\<lparr>InitCap := 1, MaxCap := 2\<rparr>) (\<lambda>_. True) (\<lambda>_. 0) =
     Inr \<lparr>address = ''srv'',
          conns = Some \<lparr>deque = \<lparr>container = [], capacity = 2\<rparr>, gate_len = 2, gate_cap = 2\<rparr>,
          Config = defaultConfig\<lparr>MaxCap := 2\<rparr>, heap = [], dialed = []\<rparr> \<and>
   tokens_in_gate \<lparr>address = ''srv'',
          conns = Some \<lparr>deque = \<lparr>container = [], capacity = 2\<rparr>, gate_len = 2, gate_cap = 2\<rparr>,
          Config = defaultConfig\<lparr>MaxCap := 2\<rparr>, heap = [], dialed = []\<rparr> = 2 \<and>
   real_handles_queued \<lparr>address = ''srv'',
          conns = Some \<lparr>deque = \<lparr>container = [], capacity = 2\<rparr>, gate_len = 2, gate_cap = 2\<rparr>,
          Config = defaultConfig\<lparr>MaxCap := 2\<rparr>, heap = [], dialed = []\<rparr> = 0"
  by (simp add: NewBlockingPool_eq Merge_fst newBlockingDeque_eq newDeque_def defaultConfig_def
      Second_def tokens_in_gate_def real_handles_queued_def queued_def)

section \<open>Return order\<close>

lemma release_A_then_B_FILO:
  "release_A_then_B ((fresh 2)\<lparr>Config := defaultConfig\<lparr>CacheMethod := FILO, MaxCap := 2\<rparr>\<rparr>) =
     (Inr 0, Inr 1, Inr 0, Inr 1)"
  by (simp add: release_A_then_B_def Get_def put_def putTop_def putBottom_def fresh_def
      bq_pop_def bq_append_def bq_prepend_def deque_pop_def deque_append_def deque_prepend_def
      NewWrapConn_def Let_def defaultConfig_def)

text \<open>
  C2 (the code departs from the specification).  Whatever return policy \<open>m\<close> the caller
  requests, the constructor builds the pool with \<open>CacheMethod = FIFO\<close>, whose release
  pushes at the tail, where acquire pops: after the releases of A then B the next two
  acquires return B then A.  The order A then B, which \<open>putTop\<close> would give, is not
  obtained from a constructed pool.
\<close>

theorem requested_policy_not_honoured:
  "NewBlockingPool ''srv'' (defaultConfig\<lparr>CacheMethod := m, MaxCap := 2\<rparr>) oks nows =
     Inr (fresh 2) \<and>
   CacheMethod (Config (fresh 2)) = FIFO \<and>
   release_A_then_B (fresh 2) = (Inr 0, Inr 1, Inr 1, Inr 0)"
proof -
  have "release_A_then_B (fresh 2) = (Inr 0, Inr 1, Inr 1, Inr 0)"
    by (simp add: release_A_then_B_def Get_def put_def putTop_def putBottom_def fresh_def
      bq_pop_def bq_append_def bq_prepend_def deque_pop_def deque_append_def deque_prepend_def
      NewWrapConn_def Let_def defaultConfig_def)
  then show ?thesis
    by (simp add: NewBlockingPool_eq Merge_fst fresh_def defaultConfig_def Second_def)
qed

section \<open>Release into a full gate\<close>

text \<open>
  C4 (the code departs from the specification).  On \<open>fresh 1\<close> the gate is full.  A handle made by
  \<^verbatim>\<open>NewWrapConn\<close> and closed by its owner is pushed by \<open>put\<close>; the bounded queue rejects the
  push with \<open>errDequeFull\<close>, \<open>put\<close> drops that error and reports success, and \<open>Close\<close>
  therefore does not destroy the handle: it is neither queued nor closed.
\<close>

theorem rejected_release_leaks:
  "NewWrapConn (fresh 1) True 0 =
     (Inr 0, (fresh 1)\<lparr>heap := [\<lparr>unusable = False, lastAccess = 0, closed = False\<rparr>],
                       dialed := [(''srv'', 30 * Second)]\<rparr>) \<and>
   fst (bq_append \<lparr>deque = \<lparr>container = [], capacity = 1\<rparr>, gate_len = 1, gate_cap = 1\<rparr> (Ptr 0)) =
     Some errDequeFull \<and>
   put (snd (NewWrapConn (fresh 1) True 0)) (Ptr 0) = (None, snd (NewWrapConn (fresh 1) True 0)) \<and>
   Close (snd (NewWrapConn (fresh 1) True 0)) 0 = (None, snd (NewWrapConn (fresh 1) True 0)) \<and>
   closed (heap (snd (Close (snd (NewWrapConn (fresh 1) True 0)) 0)) ! 0) = False \<and>
   queued (snd (Close (snd (NewWrapConn (fresh 1) True 0)) 0)) = []"
proof -
  let ?l = "\<lparr>address = ''srv'',
      conns = Some \<lparr>deque = \<lparr>container = [], capacity = 1\<rparr>, gate_len = 1, gate_cap = 1\<rparr>,
      Config = defaultConfig\<lparr>MaxCap := 1\<rparr>,
      heap = [\<lparr>unusable = False, lastAccess = 0, closed = False\<rparr>],
      dialed = [(''srv'', 30 * Second)]\<rparr>"
  have n: "NewWrapConn (fresh 1) True 0 = (Inr 0, ?l)"
    by (simp add: NewWrapConn_def fresh_def Let_def defaultConfig_def)
  have p: "put ?l (Ptr 0) = (None, ?l)"
    by (simp add: put_def putBottom_def bq_append_def defaultConfig_def)
  have c: "Close ?l 0 = (None, ?l)"
    by (simp add: Close_def put_def putBottom_def bq_append_def defaultConfig_def)
  show ?thesis
    unfolding n snd_conv c p by (simp add: bq_append_def queued_def fresh_def)
qed

section \<open>Acquire\<close>

lemma NewWrapConn_dials:
  "dialed (snd (NewWrapConn p ok now)) = dialed p @ [(address p, DialTimeout (Config p))]"
  "fst (NewWrapConn p True now) = Inr (length (heap p))"
  "heap (snd (NewWrapConn p True now)) =
     heap p @ [\<lparr>unusable = False, lastAccess = now, closed = False\<rparr>]"
  "fst (NewWrapConn p False now) = Inl ErrDial"
  "heap (snd (NewWrapConn p False now)) = heap p"
  by (simp_all add: NewWrapConn_def Let_def)

text \<open>
  What \<open>Get\<close> does once the gate has yielded a token: an empty deque (nil interface) and
  a queued handle marked unusable lead to the factory, a usable handle is returned as it
  is, and a queued nil pointer is dereferenced.
\<close>

lemma Get_after_acquisition:
  assumes "conns p = Some q" and "0 < gate_len q"
  shows "Get p ok now =
     (case fst (deque_pop (deque q)) of
        None \<Rightarrow> NewWrapConn (p\<lparr>conns := Some (snd (bq_pop q (WaitTimeout (Config p))))\<rparr>) ok now
      | Some NilPtr \<Rightarrow>
          (Inl PanicNilDeref, p\<lparr>conns := Some (snd (bq_pop q (WaitTimeout (Config p))))\<rparr>)
      | Some (Ptr a) \<Rightarrow>
          if unusable (heap p ! a)
          then NewWrapConn (p\<lparr>conns := Some (snd (bq_pop q (WaitTimeout (Config p))))\<rparr>) ok now
          else (Inr a, p\<lparr>conns := Some (snd (bq_pop q (WaitTimeout (Config p))))\<rparr>))"
  using assms
  by (simp add: Get_def bq_pop_def Let_def split_def split: option.splits connptr.splits)

lemma after_dead_close_eq:
  "after_dead_close =
     \<lparr>address = ''srv'',
      conns = Some \<lparr>deque = \<lparr>container = [NilPtr], capacity = 1\<rparr>, gate_len = 1, gate_cap = 1\<rparr>,
      Config = defaultConfig\<lparr>MaxCap := 1\<rparr>,
      heap = [\<lparr>unusable = True, lastAccess = 0, closed = True\<rparr>],
      dialed = [(''srv'', 30 * Second)]\<rparr>"
  by (simp add: after_dead_close_def Get_def fresh_def bq_pop_def deque_pop_def NewWrapConn_def
      Let_def MarkUnusable_def Close_def destroy_def putBottom_def bq_append_def
      deque_append_def defaultConfig_def)

lemma marked_sequential: "sequential (MarkUnusable (snd (Get (fresh 1) True 0)) 0)"
proof -
  have "sequential (fresh 1)"
    using fresh_built [of 1 "\<lambda>_. True" "\<lambda>_. 0"] r_new by fastforce
  then have "sequential (snd (Get (fresh 1) True 0))" by (rule r_Get)
  moreover have "0 < length (heap (snd (Get (fresh 1) True 0)))"
    unfolding Get_fresh1 by simp
  ultimately show ?thesis by (rule r_mark)
qed

lemma after_dead_close_sequential: "sequential after_dead_close"
proof -
  have "0 < length (heap (MarkUnusable (snd (Get (fresh 1) True 0)) 0))"
    unfolding Get_fresh1 by (simp add: MarkUnusable_def)
  with marked_sequential show ?thesis
    unfolding after_dead_close_def by (rule r_Close)
qed

text \<open>
  C7 (the code departs from the specification).  After an acquire, \<^verbatim>\<open>MarkUnusable\<close> and \<open>Close\<close> on
  a pool of capacity 1 the deque holds the nil pointer that \<open>Close\<close> pushed.  The next
  acquire obtains the gate token, pops that element, and panics on it instead of asking
  the factory for a connection: the factory is not invoked.
\<close>

theorem Get_panics_on_nil_marker:
  "queued after_dead_close = [NilPtr] \<and> tokens_in_gate after_dead_close = 1 \<and>
   fst (Get after_dead_close True 1) = Inl PanicNilDeref \<and>
   dialed (snd (Get after_dead_close True 1)) = dialed after_dead_close \<and>
   heap (snd (Get after_dead_close True 1)) = heap after_dead_close"
  unfolding after_dead_close_eq
  by (simp add: Get_def bq_pop_def deque_pop_def queued_def tokens_in_gate_def)

section \<open>Closing a handle\<close>

lemma destroy_closes: "a < length (heap p) \<Longrightarrow> closed (heap (destroy p a) ! a)"
  by (simp add: destroy_def)


section \<open>Interleaved runs\<close>

lemma NewBlockingPool_gate_ok: "NewBlockingPool addr c oks nows = Inr p \<Longrightarrow> gate_ok p"
proof -
  assume a: "NewBlockingPool addr c oks nows = Inr p"
  have m: "MaxCap (fst (Merge defaultConfig c)) > 0"
    by (simp add: Merge_MaxCap defaultConfig_def)
  from a m show ?thesis
    by (auto simp: NewBlockingPool_eq gate_ok_def split: if_splits)
qed

lemma gate_ok_frame:
  "gate_ok p \<Longrightarrow> conns p' = conns p \<Longrightarrow> Config p' = Config p \<Longrightarrow> gate_ok p'"
  by (auto simp: gate_ok_def split: option.splits)

lemma gate_ok_on_conns:
  assumes "gate_ok p"
    and "\<And>q. gate_len q \<le> gate_cap q \<Longrightarrow> gate_len (f q) \<le> gate_cap (f q)"
    and "\<And>q. gate_cap (f q) = gate_cap q"
    and "\<And>q. capacity (deque (f q)) = capacity (deque q)"
    and "\<And>q. int (length (container (deque q))) \<le> capacity (deque q) \<Longrightarrow> 0 \<le> capacity (deque q) \<Longrightarrow>
           int (length (container (deque (f q)))) \<le> capacity (deque q)"
  shows "gate_ok (on_conns f p)"
proof -
  from assms(1) obtain q where q: "conns p = Some q" "gate_len q \<le> gate_cap q"
    "int (gate_cap q) = MaxCap (Config p)" "capacity (deque q) = MaxCap (Config p)"
    "int (length (container (deque q))) \<le> MaxCap (Config p)"
    by (auto simp: gate_ok_def split: option.splits)
  from q(3) have "0 \<le> MaxCap (Config p)" by simp
  with q assms(2) [of q] assms(3) [of q] assms(4) [of q] assms(5) [of q]
  show ?thesis by (simp add: gate_ok_def on_conns_def)
qed

lemma do_step_ok: "gate_ok p \<Longrightarrow> gate_ok (do_step s p)"
proof (cases s)
  case Send
  assume "gate_ok p"
  then show ?thesis unfolding Send do_step.simps
    by (rule gate_ok_on_conns) (auto simp: gate_send_def)
next
  case Recv
  assume "gate_ok p"
  then show ?thesis unfolding Recv do_step.simps
    by (rule gate_ok_on_conns) (auto simp: gate_recv_def)
next
  case (PushTail c)
  assume "gate_ok p"
  then show ?thesis unfolding PushTail do_step.simps
    by (rule gate_ok_on_conns) (auto simp: push_tail_def deque_append_def)
next
  case (PushHead c)
  assume "gate_ok p"
  then show ?thesis unfolding PushHead do_step.simps
    by (rule gate_ok_on_conns) (auto simp: push_head_def deque_prepend_def)
next
  case PopTail
  assume "gate_ok p"
  then show ?thesis unfolding PopTail do_step.simps
    by (rule gate_ok_on_conns) (auto simp: pop_tail_def deque_pop_def split: list.splits)
next
  case (Dial ok now)
  assume "gate_ok p"
  then show ?thesis unfolding Dial do_step.simps
    by (rule gate_ok_frame) (simp_all add: NewWrapConn_frame)
next
  case (Destroy a)
  assume "gate_ok p"
  then show ?thesis unfolding Destroy do_step.simps
    by (rule gate_ok_frame) (simp_all add: destroy_frame)
next
  case (Mark a)
  assume "gate_ok p"
  then show ?thesis unfolding Mark do_step.simps
    by (rule gate_ok_frame) (simp_all add: MarkUnusable_def)
next
  case (CheckIdle a now)
  assume "gate_ok p"
  then show ?thesis unfolding CheckIdle do_step.simps
    by (rule gate_ok_frame) (simp_all add: checkIdle_frame)
next
  case (WriteTo a ok now)
  assume "gate_ok p"
  then show ?thesis unfolding WriteTo do_step.simps
    by (rule gate_ok_frame) (simp_all add: Write_def)
next
  case (ReadFrom a ok now)
  assume "gate_ok p"
  then show ?thesis unfolding ReadFrom do_step.simps
    by (rule gate_ok_frame) (simp_all add: Read_def)
qed

lemma interleaved_ok: "interleaved p \<Longrightarrow> gate_ok p"
  by (induction rule: interleaved.induct) (auto intro: NewBlockingPool_gate_ok do_step_ok)

lemma run_interleaved: "interleaved p \<Longrightarrow> interleaved (run ss p)"
  unfolding run_def
  by (induction ss arbitrary: p) (auto intro: i_step)

text \<open>
  Every whole operation is a sequence of the single statements, so the sequential runs
  are among the interleaved ones.
\<close>

lemma same_conns: "conns p = Some q \<Longrightarrow> p\<lparr>conns := Some q\<rparr> = p"
  by (cases p) simp

lemma Get_interleaved:
  assumes "interleaved p"
  shows "interleaved (snd (Get p ok now))"
proof (cases "conns p")
  case None
  with assms show ?thesis by (simp add: Get_def)
next
  case (Some q)
  show ?thesis
  proof (cases "0 < gate_len q")
    case False
    with assms Some show ?thesis
      by (simp add: Get_def bq_pop_def same_conns)
  next
    case True
    let ?p' = "run [Recv, PopTail] p"
    have p': "?p' = p\<lparr>conns := Some (snd (bq_pop q (WaitTimeout (Config p))))\<rparr>"
      using True Some
      by (simp add: run_def on_conns_def gate_recv_def pop_tail_def bq_pop_def split_def Let_def)
    have i: "interleaved ?p'" using assms by (rule run_interleaved)
    have "interleaved (do_step (Dial ok now) ?p')" using i by (rule i_step)
    then have d: "interleaved (snd (NewWrapConn ?p' ok now))" by simp
    have "snd (Get p ok now) = ?p' \<or> snd (Get p ok now) = snd (NewWrapConn ?p' ok now)"
      unfolding p' using True Some
      by (simp add: Get_def bq_pop_def Let_def split_def split: option.splits connptr.splits)
    with i d show ?thesis by auto
  qed
qed

lemma putBottom_interleaved:
  assumes "interleaved p"
  shows "interleaved (snd (putBottom p c))"
proof (cases "conns p")
  case None
  have "interleaved (do_step (Destroy a) p)" for a using assms by (rule i_step)
  with assms None show ?thesis
    by (cases c) (simp_all add: putBottom_def)
next
  case (Some q)
  show ?thesis
  proof (cases "gate_len q < gate_cap q")
    case False
    with assms Some show ?thesis
      by (simp add: putBottom_def bq_append_def same_conns)
  next
    case True
    have "run [Send, PushTail c] p = snd (putBottom p c)"
      using True Some
      by (simp add: run_def on_conns_def gate_send_def push_tail_def putBottom_def bq_append_def)
    with run_interleaved [OF assms, of "[Send, PushTail c]"] show ?thesis by simp
  qed
qed

lemma putTop_interleaved:
  assumes "interleaved p"
  shows "interleaved (snd (putTop p c))"
proof (cases "conns p")
  case None
  have "interleaved (do_step (Destroy a) p)" for a using assms by (rule i_step)
  with assms None show ?thesis
    by (cases c) (simp_all add: putTop_def)
next
  case (Some q)
  show ?thesis
  proof (cases "gate_len q < gate_cap q")
    case False
    with assms Some show ?thesis
      by (simp add: putTop_def bq_prepend_def same_conns)
  next
    case True
    have "run [Send, PushHead c] p = snd (putTop p c)"
      using True Some
      by (simp add: run_def on_conns_def gate_send_def push_head_def putTop_def bq_prepend_def)
    with run_interleaved [OF assms, of "[Send, PushHead c]"] show ?thesis by simp
  qed
qed

lemma put_interleaved: "interleaved p \<Longrightarrow> interleaved (snd (put p c))"
  by (simp add: put_def putBottom_interleaved putTop_interleaved)

lemma Close_interleaved:
  assumes "interleaved p"
  shows "interleaved (snd (Close p a))"
proof (cases "unusable (heap p ! a)")
  case True
  have "interleaved (do_step (Destroy a) p)" using assms by (rule i_step)
  then have "interleaved (snd (putBottom (destroy p a) NilPtr))"
    by (simp add: putBottom_interleaved)
  with True show ?thesis
    by (auto simp: Close_def split: prod.splits option.splits error.splits)
next
  case False
  have i: "interleaved (snd (put p (Ptr a)))" using assms by (rule put_interleaved)
  then have "interleaved (do_step (Destroy a) (snd (put p (Ptr a))))" by (rule i_step)
  with i False show ?thesis
    by (auto simp: Close_def split: prod.splits option.splits error.splits)
qed

lemma sweep_interleaved:
  "walk_from (sweepFn clock) xs (i, p) = (r, j, p') \<Longrightarrow> interleaved p \<Longrightarrow> interleaved p'"
proof (induction xs arbitrary: i p)
  case Nil
  then show ?case by simp
next
  case (Cons x xs)
  show ?case
  proof (cases x)
    case NilPtr
    with Cons.prems show ?thesis by (simp add: sweepFn_simps)
  next
    case (Ptr a)
    let ?p1 = "snd (checkIdle p a (clock i))"
    from Cons.prems(1) Ptr have w: "walk_from (sweepFn clock) xs (Suc i, ?p1) = (r, j, p')"
      by (simp add: sweepFn_simps)
    have "interleaved (do_step (CheckIdle a (clock i)) p)" using Cons.prems(2) by (rule i_step)
    then have "interleaved ?p1" by simp
    with Cons.IH [OF w] show ?thesis .
  qed
qed

lemma checkIdleConn_interleaved:
  assumes "interleaved p"
  shows "interleaved (snd (checkIdleConn p clock))"
proof (cases "conns p")
  case None
  with assms show ?thesis by (simp add: checkIdleConn_def)
next
  case (Some q)
  obtain r j p' where w: "walk_from (sweepFn clock) (container (deque q)) (0, p) = (r, j, p')"
    using prod_cases3 by blast
  from sweep_interleaved [OF w assms] w Some show ?thesis
    by (simp add: checkIdleConn_def deque_walk_def)
qed

lemma sequential_interleaved: "sequential p \<Longrightarrow> interleaved p"
proof (induction rule: sequential.induct)
  case (r_new addr c oks nows p)
  then show ?case by (rule i_new)
next
  case (r_mark p a)
  from i_step [OF r_mark.IH, of "Mark a"] show ?case by simp
next
  case (r_Write p a ok now)
  from i_step [OF r_Write.IH, of "WriteTo a ok now"] show ?case by simp
next
  case (r_Read p a ok now)
  from i_step [OF r_Read.IH, of "ReadFrom a ok now"] show ?case by simp
next
  case (r_dial p ok now)
  from i_step [OF r_dial.IH, of "Dial ok now"] show ?case by simp
qed (simp_all add: Get_interleaved put_interleaved Close_interleaved checkIdleConn_interleaved)

text \<open>
  The two statements that \<open>Close\<close> of a usable handle runs on the bounded queue of an open
  pool with the default policy: the send on the gate, then the push at the tail.  Run
  back to back they are the whole \<open>Close\<close>.
\<close>

lemma Close_two_statements:
  assumes "conns p = Some q" and "\<not> unusable (heap p ! a)"
    and "CacheMethod (Config p) = FIFO" and "gate_len q < gate_cap q"
  shows "snd (Close p a) = do_step (PushTail (Ptr a)) (do_step Send p)"
  using assms
  by (simp add: Close_def put_def putBottom_def bq_append_def on_conns_def gate_send_def
      push_tail_def)

lemma raced_pool_schedule:
  "snd (Close (snd (Get (fresh 1) True 0)) 0) =
     do_step (PushTail (Ptr 0)) (do_step Send (snd (Get (fresh 1) True 0))) \<and>
   tokens_in_gate (do_step Send (snd (Get (fresh 1) True 0))) = 1 \<and>
   queued (do_step Send (snd (Get (fresh 1) True 0))) = [] \<and>
   fst (Get (do_step Send (snd (Get (fresh 1) True 0))) True 1) = Inr 1 \<and>
   tokens_in_gate (snd (Get (do_step Send (snd (Get (fresh 1) True 0))) True 1)) = 0 \<and>
   queued (snd (Get (do_step Send (snd (Get (fresh 1) True 0))) True 1)) = []"
  unfolding Get_fresh1
  by (simp add: Close_def put_def putBottom_def bq_append_def deque_append_def on_conns_def
      gate_send_def push_tail_def tokens_in_gate_def queued_def Get_def bq_pop_def
      deque_pop_def NewWrapConn_def Let_def defaultConfig_def)

section \<open>The gate and the deque\<close>

lemma raced_pool_interleaved: "interleaved raced_pool"
proof -
  have "interleaved (fresh 1)"
    using fresh_built [of 1 "\<lambda>_. True" "\<lambda>_. 0"] i_new by fastforce
  then have "interleaved (snd (Get (fresh 1) True 0))" by (rule Get_interleaved)
  then have "interleaved (do_step Send (snd (Get (fresh 1) True 0)))" by (rule i_step)
  then have "interleaved (snd (Get (do_step Send (snd (Get (fresh 1) True 0))) True 1))"
    by (rule Get_interleaved)
  then show ?thesis unfolding raced_pool_def by (rule i_step)
qed

text \<open>
  C3 as stated does not hold: after the overlapping \<open>Close\<close> and \<open>Get\<close> of \<open>raced_pool\<close>
  the gate holds no token while the deque holds one real handle.
\<close>

theorem tokens_below_queued_handles:
  "interleaved raced_pool \<and>
   tokens_in_gate raced_pool = 0 \<and> queued raced_pool = [Ptr 0] \<and>
   real_handles_queued raced_pool = 1 \<and>
   \<not> real_handles_queued raced_pool \<le> tokens_in_gate raced_pool"
  using raced_pool_interleaved
  by (simp add: raced_pool_eq tokens_in_gate_def queued_def real_handles_queued_def)

text \<open>
  C3, amended.  In every state of the pool, also between the two statements of
  operations that overlap on several goroutines, the gate holds at most \<open>MaxCap\<close> tokens
  (and the deque at most \<open>MaxCap\<close> elements).  In every state reached from construction
  by acquires, releases, handle closes and idle sweeps (and by marking, reading, writing
  and dialling) that do not overlap, the gate also holds at least as many tokens as the
  deque holds real (non-nil) handles; indeed at least as many as the deque holds
  elements.
\<close>

theorem gate_bounds:
  "(interleaved p \<longrightarrow>
      int (tokens_in_gate p) \<le> MaxCap (Config p) \<and>
      int (length (queued p)) \<le> MaxCap (Config p)) \<and>
   (sequential p \<longrightarrow>
      int (tokens_in_gate p) \<le> MaxCap (Config p) \<and>
      real_handles_queued p \<le> tokens_in_gate p \<and>
      length (queued p) \<le> tokens_in_gate p)"
proof (intro conjI impI)
  assume "interleaved p"
  from interleaved_ok [OF this] obtain q where q: "conns p = Some q"
    "gate_len q \<le> gate_cap q" "int (gate_cap q) = MaxCap (Config p)"
    "int (length (container (deque q))) \<le> MaxCap (Config p)"
    by (auto simp: gate_ok_def split: option.splits)
  from q show "int (tokens_in_gate p) \<le> MaxCap (Config p)"
    by (simp add: tokens_in_gate_def)
  from q show "int (length (queued p)) \<le> MaxCap (Config p)"
    by (simp add: queued_def)
next
  assume "sequential p"
  from sequential_ok [OF this] obtain q where q: "conns p = Some q" "bq_ok q"
    "int (gate_cap q) = MaxCap (Config p)"
    by (auto simp: pool_ok_def split: option.splits)
  have "length (filter (\<lambda>c. c \<noteq> NilPtr) (container (deque q))) \<le> length (container (deque q))"
    by (rule length_filter_le)
  also from q(2) have "\<dots> \<le> gate_len q" by (simp add: bq_ok_def)
  finally show "real_handles_queued p \<le> tokens_in_gate p"
    by (simp add: tokens_in_gate_def real_handles_queued_def queued_def q(1))
  from q show "int (tokens_in_gate p) \<le> MaxCap (Config p)"
    by (simp add: tokens_in_gate_def bq_ok_def)
  from q show "length (queued p) \<le> tokens_in_gate p"
    by (simp add: tokens_in_gate_def queued_def bq_ok_def)
qed

theorem gate_bounds_witness:
  "interleaved raced_pool \<and>
   tokens_in_gate raced_pool = 0 \<and> length (queued raced_pool) = 1 \<and>
   MaxCap (Config raced_pool) = 1 \<and>
   sequential (snd (Close (snd (Get (fresh 2) True 0)) 0)) \<and>
   tokens_in_gate (snd (Close (snd (Get (fresh 2) True 0)) 0)) = 2 \<and>
   MaxCap (Config (snd (Close (snd (Get (fresh 2) True 0)) 0))) = 2 \<and>
   real_handles_queued (snd (Close (snd (Get (fresh 2) True 0)) 0)) = 1 \<and>
   queued (snd (Close (snd (Get (fresh 2) True 0)) 0)) = [Ptr 0]"
proof -
  let ?g = "snd (Get (fresh 2) True 0)"
  let ?c = "snd (Close ?g 0)"
  have g: "?g = \<lparr>address = ''srv'',
      conns = Some \<lparr>deque = \<lparr>container = [], capacity = 2\<rparr>, gate_len = 1, gate_cap = 2\<rparr>,
      Config = defaultConfig\<lparr>MaxCap := 2\<rparr>,
      heap = [\<lparr>unusable = False, lastAccess = 0, closed = False\<rparr>],
      dialed = [(''srv'', 30000000000)]\<rparr>"
    by (simp add: Get_def fresh_def bq_pop_def deque_pop_def NewWrapConn_def Let_def
        defaultConfig_def Second_def)
  have c: "?c = \<lparr>address = ''srv'',
      conns = Some \<lparr>deque = \<lparr>container = [Ptr 0], capacity = 2\<rparr>, gate_len = 2, gate_cap = 2\<rparr>,
      Config = defaultConfig\<lparr>MaxCap := 2\<rparr>,
      heap = [\<lparr>unusable = False, lastAccess = 0, closed = False\<rparr>],
      dialed = [(''srv'', 30000000000)]\<rparr>"
    unfolding g
    by (simp add: Close_def put_def putBottom_def bq_append_def deque_append_def
        defaultConfig_def)
  have "sequential (fresh 2)"
    using fresh_built [of 2 "\<lambda>_. True" "\<lambda>_. 0"] r_new by fastforce
  then have "sequential ?g" by (rule r_Get)
  then have r: "sequential ?c" by (rule r_Close) (simp add: g)
  have t: "tokens_in_gate raced_pool = 0 \<and> length (queued raced_pool) = 1 \<and>
      MaxCap (Config raced_pool) = 1"
    by (simp add: raced_pool_eq tokens_in_gate_def queued_def defaultConfig_def)
  show ?thesis
    using r raced_pool_interleaved t gate_bounds [of raced_pool] gate_bounds [of ?c]
    by (simp add: c tokens_in_gate_def real_handles_queued_def queued_def defaultConfig_def)
qed

section \<open>Closing a handle on any pool\<close>

text \<open>
  On the raced pool the gate is not full and the deque is at its capacity: closing the
  dead handle B adds a token and pushes no marker.
\<close>

lemma Close_dead_handle_deque_at_capacity:
  "tokens_in_gate (MarkUnusable raced_pool 1) = 0 \<and>
   fst (Close (MarkUnusable raced_pool 1) 1) = None \<and>
   tokens_in_gate (snd (Close (MarkUnusable raced_pool 1) 1)) = 1 \<and>
   queued (snd (Close (MarkUnusable raced_pool 1) 1)) = [Ptr 0]"
  unfolding raced_pool_eq
  by (simp add: MarkUnusable_def Close_def destroy_def putBottom_def bq_append_def
      deque_append_def tokens_in_gate_def queued_def)





end
